theory Spec2Isabelle
  imports Main "HOL-Library.Word" "HOL-Library.Mapping" "HOL-Library.AList_Mapping"
begin

section \<open>The state of a RecursiveSharedMutex\<close>

text \<open>
  The class of \<^verbatim>\<open>recursive_shared_mutex.h\<close> has four data members besides the
  bookkeeping mutex \<^verbatim>\<open>_mtx\<close>: two \<^verbatim>\<open>uint32_t\<close> counters, the atomic thread id of the
  writer and the \<^verbatim>\<open>unordered_map\<close> of the readers. A \<^verbatim>\<open>std::thread::id\<close> is either the
  default-constructed value, which belongs to no thread, or the identity of a thread:
  the slot is an \<open>option\<close>, and a caller's own identity is always \<open>Some t\<close>.
  Thread identities are opaque values that can only be compared: \<open>Thread n\<close>.
  The reader map is a \<open>mapping\<close>: \<^verbatim>\<open>size() == 0\<close> is \<open>Mapping.is_empty\<close>, \<^verbatim>\<open>count(id)\<close>
  asks whether \<open>Mapping.lookup\<close> finds an entry, \<^verbatim>\<open>erase\<close> is \<open>Mapping.delete\<close>.
  The mutex \<^verbatim>\<open>_mtx\<close> is not a field of the model: every block of code that runs under
  a \<^verbatim>\<open>lock_guard\<close> is one function on the state, applied atomically.
\<close>

datatype tid = Thread nat
type_synonym u32 = "32 word"

record mutex_state =
  waitingWriters :: u32
  writerThreadId :: "tid option"
  writersOwnership :: u32
  readersOwnership :: "(tid, u32) mapping"

text \<open>The constructor: \<^verbatim>\<open>_waitingWriters(0), _writersOwnership(1)\<close>; the other two
  members are default-constructed.\<close>

definition RecursiveSharedMutex :: mutex_state where
  "RecursiveSharedMutex =
     \<lparr>waitingWriters = 0, writerThreadId = None, writersOwnership = 1,
      readersOwnership = Mapping.empty\<rparr>"

text \<open>
  What a call can do: return, stop the program at a failed \<^verbatim>\<open>assert\<close> (the
  assertions are modelled as compiled in), or spin in one of the \<^verbatim>\<open>for (;;)\<close> loops
  for ever.
\<close>

datatype 'a outcome = Returned 'a | AssertionFailed | Diverges

section \<open>The atomic blocks\<close>

text \<open>
  \<^verbatim>\<open>_writerThreadId.compare_exchange_weak(expected, desired)\<close>. The weak form may fail
  although the slot holds the expected value; \<open>spurious\<close> says whether this attempt does.
  On failure only the caller's local copy of \<open>expected\<close> changes, which no caller reads
  again.
\<close>

definition compare_exchange_weak ::
    "bool \<Rightarrow> tid option \<Rightarrow> tid option \<Rightarrow> mutex_state \<Rightarrow> bool \<times> mutex_state" where
  "compare_exchange_weak spurious expected desired s =
     (if writerThreadId s = expected \<and> \<not> spurious
      then (True, s\<lparr>writerThreadId := desired\<rparr>)
      else (False, s))"

text \<open>\<^verbatim>\<open>unordered_map::insert\<close> leaves an existing entry as it is.\<close>

definition insert_entry :: "tid \<Rightarrow> u32 \<Rightarrow> (tid, u32) mapping \<Rightarrow> (tid, u32) mapping" where
  "insert_entry k v m =
     (case Mapping.lookup m k of None \<Rightarrow> Mapping.update k v m | Some d \<Rightarrow> m)"

text \<open>
  \<^verbatim>\<open>lock()\<close>, the first block (under \<^verbatim>\<open>_mtx\<close>). The boolean of the result says whether
  the call has returned (the reentrant path) or goes on to the loops.
\<close>

definition lock_enter :: "tid \<Rightarrow> mutex_state \<Rightarrow> (bool \<times> mutex_state) outcome" where
  "lock_enter threadId s =
     (if writerThreadId s = Some threadId
      then Returned (True, s\<lparr>writersOwnership := writersOwnership s + 1\<rparr>)
      else if Mapping.lookup (readersOwnership s) threadId \<noteq> None
      then AssertionFailed
      else Returned (False, s\<lparr>waitingWriters := waitingWriters s + 1\<rparr>))"

text \<open>\<^verbatim>\<open>lock()\<close>, the body of the inner loop (under \<^verbatim>\<open>_mtx\<close>): has the last reader
  gone?\<close>

definition lock_drain :: "mutex_state \<Rightarrow> bool \<times> mutex_state" where
  "lock_drain s =
     (if Mapping.is_empty (readersOwnership s)
      then (True, s\<lparr>waitingWriters := waitingWriters s - 1\<rparr>)
      else (False, s))"

text \<open>\<^verbatim>\<open>try_lock()\<close>, the whole body (under \<^verbatim>\<open>_mtx\<close>). The \<^verbatim>\<open>&&\<close> does not attempt the
  exchange when there are readers.\<close>

definition try_lock :: "tid \<Rightarrow> bool \<Rightarrow> mutex_state \<Rightarrow> bool \<times> mutex_state" where
  "try_lock threadId spurious s =
     (if writerThreadId s = Some threadId
      then (True, s\<lparr>writersOwnership := writersOwnership s + 1\<rparr>)
      else if \<not> Mapping.is_empty (readersOwnership s)
      then (False, s)
      else compare_exchange_weak spurious None (Some threadId) s)"

text \<open>\<^verbatim>\<open>lock_shared()\<close>, the first block (under \<^verbatim>\<open>_mtx\<close>).\<close>

definition lock_shared_enter :: "tid \<Rightarrow> mutex_state \<Rightarrow> bool \<times> mutex_state" where
  "lock_shared_enter threadId s =
     (if writerThreadId s = Some threadId
      then (True, s\<lparr>writersOwnership := writersOwnership s + 1\<rparr>)
      else (case Mapping.lookup (readersOwnership s) threadId of
              Some d \<Rightarrow>
                (True, s\<lparr>readersOwnership := Mapping.update threadId (d + 1) (readersOwnership s)\<rparr>)
            | None \<Rightarrow> (False, s)))"

text \<open>\<^verbatim>\<open>lock_shared()\<close>, the body of the loop (under \<^verbatim>\<open>_mtx\<close>).\<close>

definition lock_shared_try :: "tid \<Rightarrow> mutex_state \<Rightarrow> bool \<times> mutex_state" where
  "lock_shared_try threadId s =
     (let wait_longer = (waitingWriters s \<noteq> 0 \<or> writerThreadId s \<noteq> None) in
      if \<not> wait_longer
      then (True, s\<lparr>readersOwnership := insert_entry threadId 1 (readersOwnership s)\<rparr>)
      else (False, s))"

text \<open>\<^verbatim>\<open>unlock()\<close>: the assertion, then the body under \<^verbatim>\<open>_mtx\<close>.\<close>

definition unlock :: "tid \<Rightarrow> mutex_state \<Rightarrow> mutex_state outcome" where
  "unlock threadId s =
     (if writerThreadId s \<noteq> Some threadId
      then AssertionFailed
      else if writersOwnership s \<noteq> 1
      then Returned (s\<lparr>writersOwnership := writersOwnership s - 1\<rparr>)
      else Returned (s\<lparr>writerThreadId := None\<rparr>))"

text \<open>\<^verbatim>\<open>unlock_shared()\<close>, the whole body (under \<^verbatim>\<open>_mtx\<close>).\<close>

definition unlock_shared :: "tid \<Rightarrow> mutex_state \<Rightarrow> mutex_state outcome" where
  "unlock_shared threadId s =
     (if writerThreadId s = Some threadId
      then Returned (s\<lparr>writersOwnership := writersOwnership s - 1\<rparr>)
      else (case Mapping.lookup (readersOwnership s) threadId of
              None \<Rightarrow> AssertionFailed
            | Some d \<Rightarrow>
                if d \<noteq> 1
                then Returned (s\<lparr>readersOwnership := Mapping.update threadId (d - 1) (readersOwnership s)\<rparr>)
                else Returned (s\<lparr>readersOwnership := Mapping.delete threadId (readersOwnership s)\<rparr>)))"

section \<open>The blocking calls, run by one thread with no other thread running\<close>

text \<open>
  Between two rounds of a loop the caller yields. When no other thread runs, a round
  that fails leaves the state as it was, and the loop goes round for ever: the loops
  are partial functions, and \<open>None\<close> is a call that never returns.
  The list \<open>spurious\<close> gives the spurious failures of the successive exchange attempts
  of the call; an attempt beyond the end of the list does not fail spuriously (an
  implementation must not let the weak exchange fail for ever on a matching slot).
\<close>

partial_function (option) lock_wait_readers :: "mutex_state \<Rightarrow> mutex_state option" where
  "lock_wait_readers s =
     (let (done, s') = lock_drain s in
      if done then Some s' else lock_wait_readers s')"

partial_function (option) lock_acquire ::
    "tid \<Rightarrow> bool list \<Rightarrow> mutex_state \<Rightarrow> mutex_state option" where
  "lock_acquire threadId spurious s =
     (let (claimed, s') =
            compare_exchange_weak (spurious \<noteq> [] \<and> hd spurious) None (Some threadId) s in
      if claimed then lock_wait_readers s' else lock_acquire threadId (tl spurious) s')"

declare lock_wait_readers.simps [code] lock_acquire.simps [code]

definition lock :: "tid \<Rightarrow> bool list \<Rightarrow> mutex_state \<Rightarrow> mutex_state outcome" where
  "lock threadId spurious s =
     (case lock_enter threadId s of
        Returned (done, s') \<Rightarrow>
          if done then Returned s'
          else (case lock_acquire threadId spurious s' of
                  Some s'' \<Rightarrow> Returned s''
                | None \<Rightarrow> Diverges)
      | AssertionFailed \<Rightarrow> AssertionFailed
      | Diverges \<Rightarrow> Diverges)"

partial_function (option) lock_shared_wait :: "tid \<Rightarrow> mutex_state \<Rightarrow> mutex_state option" where
  "lock_shared_wait threadId s =
     (let (done, s') = lock_shared_try threadId s in
      if done then Some s' else lock_shared_wait threadId s')"

declare lock_shared_wait.simps [code]

definition lock_shared :: "tid \<Rightarrow> mutex_state \<Rightarrow> mutex_state outcome" where
  "lock_shared threadId s =
     (let (done, s') = lock_shared_enter threadId s in
      if done then Returned s'
      else (case lock_shared_wait threadId s' of
              Some s'' \<Rightarrow> Returned s''
            | None \<Rightarrow> Diverges))"

text \<open>A thread making calls one after the other; the first call that does not return
  ends the run.\<close>

fun run_calls :: "(mutex_state \<Rightarrow> mutex_state outcome) list \<Rightarrow> mutex_state \<Rightarrow> mutex_state outcome" where
  "run_calls [] s = Returned s"
| "run_calls (c # cs) s =
     (case c s of
        Returned s' \<Rightarrow> run_calls cs s'
      | AssertionFailed \<Rightarrow> AssertionFailed
      | Diverges \<Rightarrow> Diverges)"

section \<open>Several threads\<close>

text \<open>
  A thread is outside every call of the mutex (\<open>Idle\<close>) or inside one of the three
  loops: trying to claim the writer slot (\<open>LockSpin\<close>, after the first block of
  \<^verbatim>\<open>lock()\<close>), waiting for the readers to leave (\<open>LockDraining\<close>, after a successful
  exchange), or waiting for admission as a reader (\<open>SharedSpin\<close>). An action is one
  atomic block run by one thread. The blocks under \<^verbatim>\<open>_mtx\<close> exclude each other. The
  only accesses outside \<^verbatim>\<open>_mtx\<close> are the exchange of \<^verbatim>\<open>lock()\<close>, a single atomic
  operation that changes the slot only from empty to its caller, and the assertion of
  \<^verbatim>\<open>unlock()\<close>, which compares the slot with the caller's own identity. A block under
  \<^verbatim>\<open>_mtx\<close> reads the slot at most once before it writes, and either compares it with
  its caller's identity (which another thread's exchange cannot make true or false) or
  with the empty value (\<^verbatim>\<open>lock_shared()\<close>, and the exchange of \<^verbatim>\<open>try_lock()\<close>): an
  exchange by another thread that falls inside the block has the effect of one just
  before or just after it. A failed assertion stops the program: there is no step.
\<close>

datatype pc = Idle | LockSpin | LockDraining | SharedSpin

datatype action =
    CallLock tid
  | LockExchange tid bool
  | LockCheckReaders tid
  | CallTryLock tid bool
  | CallLockShared tid
  | SharedCheck tid
  | CallUnlock tid
  | CallUnlockShared tid

type_synonym config = "mutex_state \<times> (tid \<Rightarrow> pc)"

fun step :: "action \<Rightarrow> config \<Rightarrow> config option" where
  "step (CallLock t) (s, pcs) =
     (if pcs t \<noteq> Idle then None
      else (case lock_enter t s of
              Returned (done, s') \<Rightarrow> Some (s', if done then pcs else pcs(t := LockSpin))
            | AssertionFailed \<Rightarrow> None
            | Diverges \<Rightarrow> None))"
| "step (LockExchange t spurious) (s, pcs) =
     (if pcs t \<noteq> LockSpin then None
      else (let (claimed, s') = compare_exchange_weak spurious None (Some t) s in
            Some (s', if claimed then pcs(t := LockDraining) else pcs)))"
| "step (LockCheckReaders t) (s, pcs) =
     (if pcs t \<noteq> LockDraining then None
      else (let (done, s') = lock_drain s in
            Some (s', if done then pcs(t := Idle) else pcs)))"
| "step (CallTryLock t spurious) (s, pcs) =
     (if pcs t \<noteq> Idle then None
      else Some (snd (try_lock t spurious s), pcs))"
| "step (CallLockShared t) (s, pcs) =
     (if pcs t \<noteq> Idle then None
      else (let (done, s') = lock_shared_enter t s in
            Some (s', if done then pcs else pcs(t := SharedSpin))))"
| "step (SharedCheck t) (s, pcs) =
     (if pcs t \<noteq> SharedSpin then None
      else (let (done, s') = lock_shared_try t s in
            Some (s', if done then pcs(t := Idle) else pcs)))"
| "step (CallUnlock t) (s, pcs) =
     (if pcs t \<noteq> Idle then None
      else (case unlock t s of
              Returned s' \<Rightarrow> Some (s', pcs)
            | AssertionFailed \<Rightarrow> None
            | Diverges \<Rightarrow> None))"
| "step (CallUnlockShared t) (s, pcs) =
     (if pcs t \<noteq> Idle then None
      else (case unlock_shared t s of
              Returned s' \<Rightarrow> Some (s', pcs)
            | AssertionFailed \<Rightarrow> None
            | Diverges \<Rightarrow> None))"

text \<open>
  The steps in which a call that grants exclusive ownership comes back to its caller:
  \<^verbatim>\<open>lock()\<close> returns from its first block on the reentrant path and from the inner
  loop when the reader set is empty; \<^verbatim>\<open>try_lock()\<close> returns \<^verbatim>\<open>true\<close>. The result is the
  thread whose call returns in the step, if there is one.
\<close>

fun acquires :: "action \<Rightarrow> config \<Rightarrow> tid option" where
  "acquires (CallLock t) (s, pcs) =
     (case lock_enter t s of
        Returned (done, s') \<Rightarrow> if done then Some t else None
      | AssertionFailed \<Rightarrow> None
      | Diverges \<Rightarrow> None)"
| "acquires (LockCheckReaders t) (s, pcs) = (if fst (lock_drain s) then Some t else None)"
| "acquires (CallTryLock t spurious) (s, pcs) =
     (if fst (try_lock t spurious s) then Some t else None)"
| "acquires (LockExchange t spurious) (s, pcs) = None"
| "acquires (CallLockShared t) (s, pcs) = None"
| "acquires (SharedCheck t) (s, pcs) = None"
| "acquires (CallUnlock t) (s, pcs) = None"
| "acquires (CallUnlockShared t) (s, pcs) = None"

text \<open>A schedule is a list of actions; it runs from a configuration as long as each
  action is enabled.\<close>

fun run :: "action list \<Rightarrow> config \<Rightarrow> config option" where
  "run [] c = Some c"
| "run (a # as) c = (case step a c of None \<Rightarrow> None | Some c' \<Rightarrow> run as c')"

definition initial :: config where
  "initial = (RecursiveSharedMutex, \<lambda>t. Idle)"

text \<open>
  Ownership, read off a configuration. A thread owns the mutex exclusively when the
  writer slot holds its identity and it is not still waiting for the readers to leave;
  it owns it in shared mode when the reader set has an entry for it. The pending
  writers are the threads that have incremented \<^verbatim>\<open>_waitingWriters\<close> and not yet
  decremented it.
\<close>

definition holds_exclusive :: "config \<Rightarrow> tid \<Rightarrow> bool" where
  "holds_exclusive c t \<longleftrightarrow> writerThreadId (fst c) = Some t \<and> snd c t \<noteq> LockDraining"

definition holds_shared :: "config \<Rightarrow> tid \<Rightarrow> bool" where
  "holds_shared c t \<longleftrightarrow> Mapping.lookup (readersOwnership (fst c)) t \<noteq> None"

definition pending_writers :: "(tid \<Rightarrow> pc) \<Rightarrow> tid set" where
  "pending_writers pcs = {t. pcs t = LockSpin \<or> pcs t = LockDraining}"

text \<open>
  What every reachable configuration satisfies. Only the thread in the writer slot can
  be waiting for the readers to leave, and it is either doing that or outside every
  call, in which case the reader set is empty. The stored waiting-writer count is the
  number of pending writers, as a \<^verbatim>\<open>uint32_t\<close>.
\<close>

definition slot_agrees :: "config \<Rightarrow> bool" where
  "slot_agrees c \<longleftrightarrow>
     (case writerThreadId (fst c) of
        None \<Rightarrow> \<forall>t. snd c t \<noteq> LockDraining
      | Some w \<Rightarrow>
          (\<forall>t. t \<noteq> w \<longrightarrow> snd c t \<noteq> LockDraining)
          \<and> (snd c w = LockDraining
               \<or> snd c w = Idle \<and> Mapping.is_empty (readersOwnership (fst c))))"

definition count_agrees :: "config \<Rightarrow> bool" where
  "count_agrees c \<longleftrightarrow>
     finite (pending_writers (snd c))
     \<and> waitingWriters (fst c) = of_nat (card (pending_writers (snd c)))"

section \<open>Facts about the reader map and the counters\<close>

lemma is_empty_lookup: "Mapping.is_empty m \<longleftrightarrow> (\<forall>k. Mapping.lookup m k = None)"
  by (auto simp add: Mapping.is_empty_def keys_dom_lookup)

lemma update_same: "Mapping.lookup m k = Some v \<Longrightarrow> Mapping.update k v m = m"
  by (rule mapping_eqI) (auto simp add: lookup_update')

lemma unat_pred: "(x::u32) \<noteq> 0 \<Longrightarrow> unat (x - 1) = unat x - 1"
  by (simp add: unat_minus_one)

lemma of_nat_pred_u32:
  assumes "1 \<le> N" "N \<le> 2 ^ 32"
  shows "unat (of_nat N - 1 :: u32) = N - 1"
proof -
  have "(of_nat (N - 1) :: u32) = of_nat N - of_nat 1"
    using assms(1) by (rule of_nat_diff)
  then have e: "(of_nat N - 1 :: u32) = of_nat (N - 1)" by simp
  have "N - 1 < 2 ^ 32" using assms by simp
  then have "unat (of_nat (N - 1) :: u32) = N - 1"
    by (simp add: unat_of_nat take_bit_nat_eq_self)
  with e show ?thesis by simp
qed

section \<open>Construction\<close>

text \<open>
  C9 (as the code has it). A freshly constructed lock has waiting-writer count 0, an
  empty writer slot and an empty reader set, and its writer recursion depth is 1: the
  slot is claimed by an exchange that does not touch the depth, so the depth of a free
  lock is the depth of its next owner.
\<close>

theorem C9_initial_state:
  "waitingWriters RecursiveSharedMutex = 0
   \<and> writerThreadId RecursiveSharedMutex = None
   \<and> readersOwnership RecursiveSharedMutex = Mapping.empty
   \<and> writersOwnership RecursiveSharedMutex = 1"
  by (simp add: RecursiveSharedMutex_def)

text \<open>
  C9 as the specification states it, with every recursion-depth counter 0, does not
  hold: the constructor stores 1 in the writer's counter.
\<close>

theorem C9_all_counts_zero_counterexample:
  "\<not> (waitingWriters RecursiveSharedMutex = 0
      \<and> writersOwnership RecursiveSharedMutex = 0
      \<and> writerThreadId RecursiveSharedMutex = None
      \<and> readersOwnership RecursiveSharedMutex = Mapping.empty)"
  by (simp add: RecursiveSharedMutex_def)

section \<open>The single calls\<close>

lemma lock_reentrant:
  "writerThreadId s = Some t \<Longrightarrow>
   lock t spurious s = Returned (s\<lparr>writersOwnership := writersOwnership s + 1\<rparr>)"
  by (simp add: lock_def lock_enter_def)

lemma lock_wait_readers_empty:
  "Mapping.is_empty (readersOwnership s) \<Longrightarrow>
   lock_wait_readers s = Some (s\<lparr>waitingWriters := waitingWriters s - 1\<rparr>)"
  by (subst lock_wait_readers.simps) (simp add: lock_drain_def)

text \<open>On a free lock the exchange succeeds as soon as it does not fail spuriously,
  whatever the list of spurious failures.\<close>

lemma lock_acquire_free:
  "writerThreadId s = None \<Longrightarrow> Mapping.is_empty (readersOwnership s) \<Longrightarrow>
   lock_acquire t spurious s =
     Some (s\<lparr>writerThreadId := Some t, waitingWriters := waitingWriters s - 1\<rparr>)"
proof (induction spurious)
  case Nil
  then show ?case
    by (subst lock_acquire.simps) (simp add: compare_exchange_weak_def lock_wait_readers_empty)
next
  case (Cons b bs)
  then show ?case
    by (subst lock_acquire.simps) (simp add: compare_exchange_weak_def lock_wait_readers_empty)
qed

lemma lock_free:
  "writerThreadId s = None \<Longrightarrow> Mapping.is_empty (readersOwnership s) \<Longrightarrow>
   lock t spurious s = Returned (s\<lparr>writerThreadId := Some t\<rparr>)"
  by (simp add: lock_def lock_enter_def is_empty_lookup [THEN iffD1] lock_acquire_free)

lemma lock_shared_free:
  "writerThreadId s = None \<Longrightarrow> waitingWriters s = 0 \<Longrightarrow>
   Mapping.lookup (readersOwnership s) t = None \<Longrightarrow>
   lock_shared t s = Returned (s\<lparr>readersOwnership := Mapping.update t 1 (readersOwnership s)\<rparr>)"
  apply (simp add: lock_shared_def lock_shared_enter_def)
  apply (subst lock_shared_wait.simps)
  apply (simp add: lock_shared_try_def insert_entry_def)
  done

text \<open>
  C3. When the writer slot already holds the caller's identity, \<^verbatim>\<open>lock()\<close> returns,
  and the state it leaves differs from the one it found in the writer recursion depth
  only, which is one more (in \<^verbatim>\<open>uint32_t\<close> arithmetic): the reader set, the
  waiting-writer count and the writer slot are unchanged. The call does not reach the
  loops, whatever the other threads hold.
\<close>

theorem C3_lock_reentrant_fast_path:
  assumes "writerThreadId s = Some t"
  shows "lock t spurious s = Returned (s\<lparr>writersOwnership := writersOwnership s + 1\<rparr>)
       \<and> lock_enter t s = Returned (True, s\<lparr>writersOwnership := writersOwnership s + 1\<rparr>)"
  using assms by (simp add: lock_def lock_enter_def)

theorem C3_lock_reentrant_fast_path_witness:
  "writerThreadId (RecursiveSharedMutex\<lparr>writerThreadId := Some (Thread 7)\<rparr>) = Some (Thread 7)
   \<and> lock (Thread 7) [True] (RecursiveSharedMutex\<lparr>writerThreadId := Some (Thread 7)\<rparr>)
       = Returned (RecursiveSharedMutex
                    \<lparr>writerThreadId := Some (Thread 7), writersOwnership := 2\<rparr>)"
  using C3_lock_reentrant_fast_path
    [of "RecursiveSharedMutex\<lparr>writerThreadId := Some (Thread 7)\<rparr>" "Thread 7" "[True]"]
  by (simp add: RecursiveSharedMutex_def)

text \<open>
  C4. \<^verbatim>\<open>unlock()\<close> called by the thread in the writer slot: with a depth greater than 1
  it decrements the depth and leaves the slot occupied; with depth 1 it empties the slot
  and leaves the stored depth at 1, the depth of the next owner.
\<close>

theorem C4_unlock:
  assumes "writerThreadId s = Some t"
  shows "(1 < writersOwnership s \<longrightarrow>
            unlock t s = Returned (s\<lparr>writersOwnership := writersOwnership s - 1\<rparr>)
            \<and> writerThreadId (s\<lparr>writersOwnership := writersOwnership s - 1\<rparr>) = Some t)
       \<and> (writersOwnership s = 1 \<longrightarrow>
            unlock t s = Returned (s\<lparr>writerThreadId := None\<rparr>)
            \<and> writersOwnership (s\<lparr>writerThreadId := None\<rparr>) = 1)"
  using assms by (auto simp add: unlock_def)

theorem C4_unlock_witness:
  "unlock (Thread 7)
      (RecursiveSharedMutex\<lparr>writerThreadId := Some (Thread 7), writersOwnership := 3\<rparr>)
     = Returned (RecursiveSharedMutex
                  \<lparr>writerThreadId := Some (Thread 7), writersOwnership := 2\<rparr>)
   \<and> unlock (Thread 7) (RecursiveSharedMutex\<lparr>writerThreadId := Some (Thread 7)\<rparr>)
     = Returned RecursiveSharedMutex"
  using
    C4_unlock
      [of "RecursiveSharedMutex\<lparr>writerThreadId := Some (Thread 7), writersOwnership := 3\<rparr>"
          "Thread 7"]
    C4_unlock [of "RecursiveSharedMutex\<lparr>writerThreadId := Some (Thread 7)\<rparr>" "Thread 7"]
  by (simp add: RecursiveSharedMutex_def)

text \<open>
  C5. \<^verbatim>\<open>unlock_shared()\<close>: called by the thread in the writer slot it decrements the
  writer recursion depth and changes nothing else. Called by any other thread it stops
  at the assertion when the caller has no entry in the reader set; when the caller's
  entry has a depth greater than 1 the depth is decremented; when it is 1 the entry is
  erased.
\<close>

theorem C5_unlock_shared:
  "(writerThreadId s = Some t \<longrightarrow>
       unlock_shared t s = Returned (s\<lparr>writersOwnership := writersOwnership s - 1\<rparr>))
   \<and> (writerThreadId s \<noteq> Some t \<and> Mapping.lookup (readersOwnership s) t = None \<longrightarrow>
       unlock_shared t s = AssertionFailed)
   \<and> (writerThreadId s \<noteq> Some t \<and> Mapping.lookup (readersOwnership s) t = Some d \<and> 1 < d \<longrightarrow>
       unlock_shared t s =
         Returned (s\<lparr>readersOwnership := Mapping.update t (d - 1) (readersOwnership s)\<rparr>))
   \<and> (writerThreadId s \<noteq> Some t \<and> Mapping.lookup (readersOwnership s) t = Some d \<and> d = 1 \<longrightarrow>
       unlock_shared t s =
         Returned (s\<lparr>readersOwnership := Mapping.delete t (readersOwnership s)\<rparr>))"
  by (auto simp add: unlock_shared_def)

theorem C5_unlock_shared_witness:
  "unlock_shared (Thread 7)
      (RecursiveSharedMutex\<lparr>writerThreadId := Some (Thread 7), writersOwnership := 3\<rparr>)
     = Returned (RecursiveSharedMutex
                  \<lparr>writerThreadId := Some (Thread 7), writersOwnership := 2\<rparr>)
   \<and> unlock_shared (Thread 7) RecursiveSharedMutex = AssertionFailed
   \<and> unlock_shared (Thread 7)
        (RecursiveSharedMutex\<lparr>readersOwnership := Mapping.update (Thread 7) 2 Mapping.empty\<rparr>)
     = Returned (RecursiveSharedMutex
                  \<lparr>readersOwnership := Mapping.update (Thread 7) 1 Mapping.empty\<rparr>)
   \<and> unlock_shared (Thread 7)
        (RecursiveSharedMutex\<lparr>readersOwnership := Mapping.update (Thread 7) 1 Mapping.empty\<rparr>)
     = Returned RecursiveSharedMutex"
  using
    C5_unlock_shared
      [of "RecursiveSharedMutex\<lparr>writerThreadId := Some (Thread 7), writersOwnership := 3\<rparr>"
          "Thread 7" 0]
    C5_unlock_shared [of RecursiveSharedMutex "Thread 7" 0]
    C5_unlock_shared
      [of "RecursiveSharedMutex\<lparr>readersOwnership := Mapping.update (Thread 7) 2 Mapping.empty\<rparr>"
          "Thread 7" 2]
    C5_unlock_shared
      [of "RecursiveSharedMutex\<lparr>readersOwnership := Mapping.update (Thread 7) 1 Mapping.empty\<rparr>"
          "Thread 7" 1]
  by (simp add: RecursiveSharedMutex_def update_update delete_update)

text \<open>
  C6. \<^verbatim>\<open>try_lock()\<close> has no loop: it is a function that always yields its answer. When
  the caller is in the writer slot it answers true and increments the writer depth.
  Otherwise it answers true exactly when the reader set is empty and its one exchange
  claims the empty slot (the slot is empty and the exchange does not fail spuriously),
  and the state is then the old one with the caller in the slot; in every other case it
  answers false and leaves the state as it was. The waiting-writer count is never
  changed.
\<close>

theorem C6_try_lock:
  "(writerThreadId s = Some t \<longrightarrow>
       try_lock t spurious s = (True, s\<lparr>writersOwnership := writersOwnership s + 1\<rparr>))
   \<and> (writerThreadId s \<noteq> Some t \<longrightarrow>
        (fst (try_lock t spurious s) \<longleftrightarrow>
           Mapping.is_empty (readersOwnership s)
           \<and> fst (compare_exchange_weak spurious None (Some t) s))
      \<and> (fst (compare_exchange_weak spurious None (Some t) s) \<longleftrightarrow>
           writerThreadId s = None \<and> \<not> spurious)
      \<and> (fst (try_lock t spurious s) \<longrightarrow>
           snd (try_lock t spurious s) = s\<lparr>writerThreadId := Some t\<rparr>)
      \<and> (\<not> fst (try_lock t spurious s) \<longrightarrow> snd (try_lock t spurious s) = s))
   \<and> waitingWriters (snd (try_lock t spurious s)) = waitingWriters s"
  by (auto simp add: try_lock_def compare_exchange_weak_def)

theorem C6_try_lock_witness:
  "try_lock (Thread 7) False (RecursiveSharedMutex\<lparr>writerThreadId := Some (Thread 7)\<rparr>)
     = (True, RecursiveSharedMutex\<lparr>writerThreadId := Some (Thread 7), writersOwnership := 2\<rparr>)
   \<and> try_lock (Thread 7) False (RecursiveSharedMutex\<lparr>waitingWriters := 1\<rparr>)
     = (True, RecursiveSharedMutex\<lparr>waitingWriters := 1, writerThreadId := Some (Thread 7)\<rparr>)
   \<and> try_lock (Thread 7) False
        (RecursiveSharedMutex\<lparr>readersOwnership := Mapping.update (Thread 3) 1 Mapping.empty\<rparr>)
     = (False,
        RecursiveSharedMutex\<lparr>readersOwnership := Mapping.update (Thread 3) 1 Mapping.empty\<rparr>)
   \<and> try_lock (Thread 7) True RecursiveSharedMutex = (False, RecursiveSharedMutex)"
  using
    C6_try_lock [of "RecursiveSharedMutex\<lparr>writerThreadId := Some (Thread 7)\<rparr>" "Thread 7" False]
    C6_try_lock [of "RecursiveSharedMutex\<lparr>waitingWriters := 1\<rparr>" "Thread 7" False]
    C6_try_lock
      [of "RecursiveSharedMutex\<lparr>readersOwnership := Mapping.update (Thread 3) 1 Mapping.empty\<rparr>"
          "Thread 7" False]
    C6_try_lock [of RecursiveSharedMutex "Thread 7" True]
  by (simp add: RecursiveSharedMutex_def compare_exchange_weak_def prod_eq_iff)

text \<open>
  C10. When the thread in the writer slot calls \<^verbatim>\<open>unlock_shared()\<close> at writer depth 1,
  the depth becomes 0 and the slot stays occupied; its next \<^verbatim>\<open>unlock()\<close> finds a depth
  other than 1, decrements the 32-bit depth from 0 to \<open>2^32 - 1 = 4294967295\<close>, and the
  slot is still occupied.
\<close>

theorem C10_unlock_shared_then_unlock_wraps:
  assumes "writerThreadId s = Some t" "writersOwnership s = 1"
  shows "unlock_shared t s = Returned (s\<lparr>writersOwnership := 0\<rparr>)
       \<and> writerThreadId (s\<lparr>writersOwnership := 0\<rparr>) = Some t
       \<and> unlock t (s\<lparr>writersOwnership := 0\<rparr>) = Returned (s\<lparr>writersOwnership := 4294967295\<rparr>)
       \<and> writerThreadId (s\<lparr>writersOwnership := 4294967295\<rparr>) = Some t
       \<and> unat (4294967295 :: u32) = 2 ^ 32 - 1"
  using assms by (simp add: unlock_shared_def unlock_def)

theorem C10_unlock_shared_then_unlock_wraps_witness:
  "run_calls [lock (Thread 7) [], unlock_shared (Thread 7), unlock (Thread 7)]
      RecursiveSharedMutex
     = Returned (RecursiveSharedMutex
                  \<lparr>writerThreadId := Some (Thread 7), writersOwnership := 4294967295\<rparr>)"
  using C10_unlock_shared_then_unlock_wraps
    [of "RecursiveSharedMutex\<lparr>writerThreadId := Some (Thread 7)\<rparr>" "Thread 7"]
  by (simp add: RecursiveSharedMutex_def lock_free)

section \<open>Nested calls by one thread\<close>

lemma run_calls_append:
  "run_calls (xs @ ys) s =
     (case run_calls xs s of
        Returned s' \<Rightarrow> run_calls ys s'
      | AssertionFailed \<Rightarrow> AssertionFailed
      | Diverges \<Rightarrow> Diverges)"
  by (induction xs arbitrary: s) (auto split: outcome.splits)

lemma relock:
  "writerThreadId s = Some t \<Longrightarrow>
   run_calls (map (lock t) sps) s =
     Returned (s\<lparr>writersOwnership := writersOwnership s + of_nat (length sps)\<rparr>)"
proof (induction sps arbitrary: s)
  case Nil
  then show ?case by simp
next
  case (Cons sp sps)
  then show ?case by (simp add: lock_reentrant add.assoc add.commute)
qed

lemma locks_from_free:
  assumes "writerThreadId s = None" "Mapping.is_empty (readersOwnership s)" "sps \<noteq> []"
  shows "run_calls (map (lock t) sps) s =
     Returned (s\<lparr>writerThreadId := Some t,
                 writersOwnership := writersOwnership s + of_nat (length sps - 1)\<rparr>)"
proof (cases sps)
  case Nil
  with assms show ?thesis by simp
next
  case (Cons sp rest)
  then show ?thesis using assms by (simp add: lock_free relock)
qed

lemma unlocks:
  "writerThreadId s = Some t \<Longrightarrow> k \<le> unat (writersOwnership s - 1) \<Longrightarrow>
   run_calls (replicate k (unlock t)) s =
     Returned (s\<lparr>writersOwnership := writersOwnership s - of_nat k\<rparr>)"
proof (induction k arbitrary: s)
  case 0
  then show ?case by simp
next
  case (Suc k)
  from Suc.prems have ne: "writersOwnership s - 1 \<noteq> 0"
    by (auto simp add: unat_eq_0 [symmetric] simp del: unat_eq_0)
  then have ne1: "writersOwnership s \<noteq> 1" by simp
  let ?s1 = "s\<lparr>writersOwnership := writersOwnership s - 1\<rparr>"
  have u: "unlock t s = Returned ?s1"
    using Suc.prems ne1 by (simp add: unlock_def)
  have "k \<le> unat (writersOwnership ?s1 - 1)"
    using Suc.prems unat_pred [OF ne] by simp
  with Suc.IH [of ?s1] Suc.prems
  have "run_calls (replicate k (unlock t)) ?s1 =
          Returned (?s1\<lparr>writersOwnership := writersOwnership ?s1 - of_nat k\<rparr>)"
    by simp
  with u show ?case by (simp add: diff_diff_eq add.commute)
qed

lemma last_unlock:
  assumes "writerThreadId s = Some t"
  shows "run_calls (replicate (Suc (unat (writersOwnership s - 1))) (unlock t)) s =
           Returned (s\<lparr>writersOwnership := 1, writerThreadId := None\<rparr>)"
proof -
  let ?k = "unat (writersOwnership s - 1)"
  have "replicate (Suc ?k) (unlock t) = replicate ?k (unlock t) @ [unlock t]"
    by (simp add: replicate_append_same)
  then show ?thesis
    using assms by (simp only: run_calls_append unlocks [OF assms order_refl])
      (simp add: unlock_def)
qed

lemma locks_then_unlocks:
  assumes "1 \<le> N" "N \<le> 2 ^ 32" "length sps = N" "K < N"
  shows "run_calls (map (lock t) sps @ replicate K (unlock t)) RecursiveSharedMutex =
           Returned (RecursiveSharedMutex\<lparr>writerThreadId := Some t, writersOwnership := of_nat (N - K)\<rparr>)"
proof -
  let ?s1 = "RecursiveSharedMutex\<lparr>writerThreadId := Some t, writersOwnership := of_nat N\<rparr>"
  have ne: "sps \<noteq> []" using assms by auto
  have "(1 :: u32) + of_nat (N - 1) = of_nat N"
    using assms(1) by (simp add: of_nat_diff)
  then have l: "run_calls (map (lock t) sps) RecursiveSharedMutex = Returned ?s1"
    using locks_from_free [of RecursiveSharedMutex sps t] ne assms(3)
    by (simp add: RecursiveSharedMutex_def)
  have "K \<le> unat (writersOwnership ?s1 - 1)"
    using of_nat_pred_u32 [OF assms(1,2)] assms(4) by simp
  then have "run_calls (replicate K (unlock t)) ?s1 =
      Returned (?s1\<lparr>writersOwnership := writersOwnership ?s1 - of_nat K\<rparr>)"
    by (intro unlocks) simp_all
  moreover have "(of_nat N - of_nat K :: u32) = of_nat (N - K)"
    using assms(4) by (simp add: of_nat_diff)
  ultimately show ?thesis using l by (simp add: run_calls_append)
qed

lemma locks_then_all_unlocks:
  assumes "1 \<le> N" "N \<le> 2 ^ 32" "length sps = N"
  shows "run_calls (map (lock t) sps @ replicate N (unlock t)) RecursiveSharedMutex =
           Returned RecursiveSharedMutex"
proof -
  let ?s1 = "RecursiveSharedMutex\<lparr>writerThreadId := Some t, writersOwnership := of_nat N\<rparr>"
  have ne: "sps \<noteq> []" using assms by auto
  have "(1 :: u32) + of_nat (N - 1) = of_nat N"
    using assms(1) by (simp add: of_nat_diff)
  then have l: "run_calls (map (lock t) sps) RecursiveSharedMutex = Returned ?s1"
    using locks_from_free [of RecursiveSharedMutex sps t] ne assms(3)
    by (simp add: RecursiveSharedMutex_def)
  have k: "Suc (unat (writersOwnership ?s1 - 1)) = N"
    using of_nat_pred_u32 [OF assms(1,2)] assms(1) by simp
  have "run_calls (replicate (Suc (unat (writersOwnership ?s1 - 1))) (unlock t)) ?s1 =
          Returned (?s1\<lparr>writersOwnership := 1, writerThreadId := None\<rparr>)"
    by (rule last_unlock) simp
  then have "run_calls (replicate N (unlock t)) ?s1 = Returned RecursiveSharedMutex"
    unfolding k by (simp add: RecursiveSharedMutex_def)
  with l show ?thesis by (simp add: run_calls_append)
qed

lemma lock_shared_again:
  "writerThreadId s \<noteq> Some t \<Longrightarrow> Mapping.lookup (readersOwnership s) t = Some d \<Longrightarrow>
   run_calls (replicate n (lock_shared t)) s =
     Returned (s\<lparr>readersOwnership := Mapping.update t (d + of_nat n) (readersOwnership s)\<rparr>)"
proof (induction n arbitrary: s d)
  case 0
  then show ?case by (simp add: update_same)
next
  case (Suc n)
  let ?s1 = "s\<lparr>readersOwnership := Mapping.update t (d + 1) (readersOwnership s)\<rparr>"
  have "lock_shared t s = Returned ?s1"
    using Suc.prems by (simp add: lock_shared_def lock_shared_enter_def)
  moreover have "run_calls (replicate n (lock_shared t)) ?s1 =
      Returned (?s1\<lparr>readersOwnership := Mapping.update t (d + 1 + of_nat n) (readersOwnership ?s1)\<rparr>)"
    using Suc.prems by (intro Suc.IH) simp_all
  ultimately show ?case by (simp add: update_update add.assoc)
qed

lemma unlock_shareds:
  "writerThreadId s \<noteq> Some t \<Longrightarrow> Mapping.lookup (readersOwnership s) t = Some d \<Longrightarrow>
   k \<le> unat (d - 1) \<Longrightarrow>
   run_calls (replicate k (unlock_shared t)) s =
     Returned (s\<lparr>readersOwnership := Mapping.update t (d - of_nat k) (readersOwnership s)\<rparr>)"
proof (induction k arbitrary: s d)
  case 0
  then show ?case by (simp add: update_same)
next
  case (Suc k)
  from Suc.prems have ne: "d - 1 \<noteq> 0"
    by (auto simp add: unat_eq_0 [symmetric] simp del: unat_eq_0)
  then have ne1: "d \<noteq> 1" by simp
  let ?s1 = "s\<lparr>readersOwnership := Mapping.update t (d - 1) (readersOwnership s)\<rparr>"
  have u: "unlock_shared t s = Returned ?s1"
    using Suc.prems ne1 by (simp add: unlock_shared_def)
  have "k \<le> unat (d - 1 - 1)"
    using Suc.prems unat_pred [OF ne] by simp
  then have "run_calls (replicate k (unlock_shared t)) ?s1 =
          Returned (?s1\<lparr>readersOwnership := Mapping.update t (d - 1 - of_nat k) (readersOwnership ?s1)\<rparr>)"
    using Suc.prems by (intro Suc.IH) simp_all
  with u show ?case by (simp add: update_update diff_diff_eq add.commute)
qed

lemma last_unlock_shared:
  assumes "writerThreadId s \<noteq> Some t" "Mapping.lookup (readersOwnership s) t = Some d"
  shows "run_calls (replicate (Suc (unat (d - 1))) (unlock_shared t)) s =
           Returned (s\<lparr>readersOwnership := Mapping.delete t (readersOwnership s)\<rparr>)"
proof -
  let ?k = "unat (d - 1)"
  have "replicate (Suc ?k) (unlock_shared t) = replicate ?k (unlock_shared t) @ [unlock_shared t]"
    by (simp add: replicate_append_same)
  then show ?thesis
    using assms by (simp only: run_calls_append unlock_shareds [OF assms order_refl])
      (simp add: unlock_shared_def delete_update)
qed

lemma lock_shareds_from_free:
  assumes "1 \<le> N"
  shows "run_calls (replicate N (lock_shared t)) RecursiveSharedMutex =
           Returned (RecursiveSharedMutex\<lparr>readersOwnership := Mapping.update t (of_nat N) Mapping.empty\<rparr>)"
proof -
  obtain n where N: "N = Suc n" using assms by (cases N) auto
  let ?s1 = "RecursiveSharedMutex\<lparr>readersOwnership := Mapping.update t 1 Mapping.empty\<rparr>"
  have "lock_shared t RecursiveSharedMutex = Returned ?s1"
    using lock_shared_free [of RecursiveSharedMutex t] by (simp add: RecursiveSharedMutex_def)
  moreover have "run_calls (replicate n (lock_shared t)) ?s1 =
      Returned (?s1\<lparr>readersOwnership := Mapping.update t (1 + of_nat n) (readersOwnership ?s1)\<rparr>)"
    by (rule lock_shared_again) (simp_all add: RecursiveSharedMutex_def)
  ultimately show ?thesis by (simp add: N update_update)
qed

lemma lock_shareds_then_unlock_shareds:
  assumes "1 \<le> N" "N \<le> 2 ^ 32" "K < N"
  shows "run_calls (replicate N (lock_shared t) @ replicate K (unlock_shared t)) RecursiveSharedMutex =
           Returned (RecursiveSharedMutex\<lparr>readersOwnership := Mapping.update t (of_nat (N - K)) Mapping.empty\<rparr>)"
proof -
  let ?s1 = "RecursiveSharedMutex\<lparr>readersOwnership := Mapping.update t (of_nat N) Mapping.empty\<rparr>"
  have "K \<le> unat (of_nat N - 1 :: u32)"
    using of_nat_pred_u32 [OF assms(1,2)] assms(3) by simp
  then have "run_calls (replicate K (unlock_shared t)) ?s1 =
      Returned (?s1\<lparr>readersOwnership := Mapping.update t (of_nat N - of_nat K) (readersOwnership ?s1)\<rparr>)"
    by (intro unlock_shareds) (simp_all add: RecursiveSharedMutex_def)
  moreover have "(of_nat N - of_nat K :: u32) = of_nat (N - K)"
    using assms(3) by (simp add: of_nat_diff)
  ultimately show ?thesis
    using lock_shareds_from_free [OF assms(1), of t] by (simp add: run_calls_append update_update)
qed

lemma lock_shareds_then_all_unlock_shareds:
  assumes "1 \<le> N" "N \<le> 2 ^ 32"
  shows "run_calls (replicate N (lock_shared t) @ replicate N (unlock_shared t)) RecursiveSharedMutex =
           Returned RecursiveSharedMutex"
proof -
  let ?s1 = "RecursiveSharedMutex\<lparr>readersOwnership := Mapping.update t (of_nat N) Mapping.empty\<rparr>"
  have k: "Suc (unat (of_nat N - 1 :: u32)) = N"
    using of_nat_pred_u32 [OF assms(1,2)] assms(1) by simp
  have "run_calls (replicate (Suc (unat (of_nat N - 1 :: u32))) (unlock_shared t)) ?s1 =
          Returned (?s1\<lparr>readersOwnership := Mapping.delete t (readersOwnership ?s1)\<rparr>)"
    by (rule last_unlock_shared) (simp_all add: RecursiveSharedMutex_def)
  then have "run_calls (replicate N (unlock_shared t)) ?s1 = Returned RecursiveSharedMutex"
    unfolding k by (simp add: RecursiveSharedMutex_def delete_update)
  then show ?thesis
    using lock_shareds_from_free [OF assms(1), of t] by (simp add: run_calls_append)
qed

text \<open>
  C7 (as the code has it). For \<open>1 \<le> N \<le> 2^32\<close>: a thread that calls \<^verbatim>\<open>lock()\<close> \<open>N\<close>
  times on a freshly constructed lock (each call with any spurious failures of its
  exchange) is still in the writer slot after any \<open>K < N\<close> calls of \<^verbatim>\<open>unlock()\<close>, and
  after the \<open>N\<close>-th \<^verbatim>\<open>unlock()\<close> the lock is in its constructed state again: writer slot
  empty, reader set empty, waiting-writer count 0. The same holds for \<open>N\<close> calls of
  \<^verbatim>\<open>lock_shared()\<close> followed by calls of \<^verbatim>\<open>unlock_shared()\<close>, with the caller's entry in
  the reader set in place of the writer slot. All the calls return. The bound \<open>2^32\<close>
  is the range of the \<^verbatim>\<open>uint32_t\<close> depth counters.
\<close>

theorem C7_reentrancy_round_trip:
  assumes "1 \<le> N" "N \<le> 2 ^ 32" "length sps = N" "K < N"
  shows "(\<exists>s'. run_calls (map (lock t) sps @ replicate K (unlock t)) RecursiveSharedMutex
                  = Returned s'
              \<and> writerThreadId s' = Some t)
       \<and> run_calls (map (lock t) sps @ replicate N (unlock t)) RecursiveSharedMutex
           = Returned RecursiveSharedMutex
       \<and> (\<exists>s'. run_calls (replicate N (lock_shared t) @ replicate K (unlock_shared t))
                    RecursiveSharedMutex
                  = Returned s'
              \<and> Mapping.lookup (readersOwnership s') t \<noteq> None)
       \<and> run_calls (replicate N (lock_shared t) @ replicate N (unlock_shared t))
             RecursiveSharedMutex
           = Returned RecursiveSharedMutex"
  using locks_then_unlocks [OF assms, of t] locks_then_all_unlocks [OF assms(1-3), of t]
    lock_shareds_then_unlock_shareds [OF assms(1,2,4), of t]
    lock_shareds_then_all_unlock_shareds [OF assms(1,2), of t]
  by simp

theorem C7_reentrancy_round_trip_witness:
  "(1::nat) \<le> 3 \<and> (3::nat) \<le> 2 ^ 32 \<and> length [[], [True], []] = (3::nat) \<and> (2::nat) < 3
   \<and> (\<exists>s'. run_calls (map (lock (Thread 1)) [[], [True], []] @ replicate 2 (unlock (Thread 1)))
                RecursiveSharedMutex
              = Returned s'
          \<and> writerThreadId s' = Some (Thread 1))
   \<and> run_calls (map (lock (Thread 1)) [[], [True], []] @ replicate 3 (unlock (Thread 1))) RecursiveSharedMutex
       = Returned RecursiveSharedMutex
   \<and> (\<exists>s'. run_calls (replicate 3 (lock_shared (Thread 1)) @ replicate 2 (unlock_shared (Thread 1)))
                RecursiveSharedMutex
              = Returned s'
          \<and> Mapping.lookup (readersOwnership s') (Thread 1) \<noteq> None)
   \<and> run_calls (replicate 3 (lock_shared (Thread 1)) @ replicate 3 (unlock_shared (Thread 1)))
         RecursiveSharedMutex
       = Returned RecursiveSharedMutex"
proof -
  have h1: "(1::nat) \<le> 3" by simp
  have h2: "(3::nat) \<le> 2 ^ 32" by simp
  have h3: "length [[], [True], []] = (3::nat)" by simp
  have h4: "(2::nat) < 3" by simp
  show ?thesis
    using h1 h2 h3 h4 C7_reentrancy_round_trip [OF h1 h2 h3 h4, of "Thread 1"] by blast
qed

text \<open>
  C7 as the specification states it, for every \<open>N \<ge> 1\<close>, does not hold: the depth is a
  \<^verbatim>\<open>uint32_t\<close>. After \<open>N = 2^32 + 1 = 4294967297\<close> calls of \<^verbatim>\<open>lock()\<close> the stored depth
  has wrapped around to 1, and the first \<^verbatim>\<open>unlock()\<close> (\<open>K = 1 < N\<close>) empties the writer
  slot.
\<close>

theorem C7_every_N_counterexample:
  "(1::nat) < 4294967297
   \<and> run_calls (map (lock (Thread 1)) (replicate 4294967297 []) @ replicate 1 (unlock (Thread 1)))
         RecursiveSharedMutex
       = Returned RecursiveSharedMutex
   \<and> writerThreadId RecursiveSharedMutex \<noteq> Some (Thread 1)"
proof -
  let ?s1 = "RecursiveSharedMutex\<lparr>writerThreadId := Some (Thread 1), writersOwnership := 1\<rparr>"
  have "replicate 4294967297 ([]::bool list) \<noteq> []" by simp
  from locks_from_free [of RecursiveSharedMutex _ "Thread 1", OF _ _ this]
  have "run_calls (map (lock (Thread 1)) (replicate 4294967297 [])) RecursiveSharedMutex = Returned ?s1"
    by (simp add: RecursiveSharedMutex_def)
  moreover have "unlock (Thread 1) ?s1 = Returned RecursiveSharedMutex"
    by (simp add: unlock_def RecursiveSharedMutex_def)
  ultimately show ?thesis
    by (simp add: run_calls_append RecursiveSharedMutex_def)
qed

text \<open>
  C8, evaluated where the code departs from it. One thread, on a freshly constructed
  lock, calls \<^verbatim>\<open>lock()\<close>, \<^verbatim>\<open>lock_shared()\<close>, \<^verbatim>\<open>unlock()\<close>, \<^verbatim>\<open>unlock_shared()\<close>: every
  acquisition is matched by its release. All four calls return, and they leave the
  thread in the writer slot with a stored recursion depth of 0. The writer branch of
  \<^verbatim>\<open>unlock_shared()\<close> decrements without the test for depth 1 that \<^verbatim>\<open>unlock()\<close> makes
  (and that the comment above the branch announces). The shorter run \<^verbatim>\<open>lock()\<close>,
  \<^verbatim>\<open>unlock_shared()\<close> ends in the same state.
\<close>

theorem C8_depth_zero_stored_for_writer:
  "run_calls [lock (Thread 1) [], lock_shared (Thread 1), unlock (Thread 1), unlock_shared (Thread 1)] RecursiveSharedMutex
     = Returned \<lparr>waitingWriters = 0, writerThreadId = Some (Thread 1), writersOwnership = 0,
                 readersOwnership = Mapping.empty\<rparr>
   \<and> run_calls [lock (Thread 1) [], unlock_shared (Thread 1)] RecursiveSharedMutex
     = Returned \<lparr>waitingWriters = 0, writerThreadId = Some (Thread 1), writersOwnership = 0,
                 readersOwnership = Mapping.empty\<rparr>"
  by (simp add: RecursiveSharedMutex_def lock_free lock_shared_def lock_shared_enter_def
      unlock_def unlock_shared_def)

section \<open>Interleaved threads: what every reachable configuration satisfies\<close>

lemma not_empty_if_entry: "Mapping.lookup m k = Some v \<Longrightarrow> \<not> Mapping.is_empty m"
  by (auto simp add: is_empty_lookup)

lemma slot_agrees_CallLock:
  "step (CallLock t) (s, pcs) = Some (s', pcs') \<Longrightarrow> slot_agrees (s, pcs) \<Longrightarrow> slot_agrees (s', pcs')"
  by (auto simp add: slot_agrees_def lock_enter_def split: if_splits option.splits)

lemma slot_agrees_LockExchange:
  "step (LockExchange t sp) (s, pcs) = Some (s', pcs') \<Longrightarrow> slot_agrees (s, pcs) \<Longrightarrow> slot_agrees (s', pcs')"
  by (auto simp add: slot_agrees_def compare_exchange_weak_def split: if_splits option.splits)

lemma slot_agrees_LockCheckReaders:
  "step (LockCheckReaders t) (s, pcs) = Some (s', pcs') \<Longrightarrow> slot_agrees (s, pcs) \<Longrightarrow> slot_agrees (s', pcs')"
  by (auto simp add: slot_agrees_def lock_drain_def split: if_splits option.splits)

lemma slot_agrees_CallTryLock:
  "step (CallTryLock t sp) (s, pcs) = Some (s', pcs') \<Longrightarrow> slot_agrees (s, pcs) \<Longrightarrow> slot_agrees (s', pcs')"
  by (auto simp add: slot_agrees_def try_lock_def compare_exchange_weak_def split: if_splits option.splits)

lemma slot_agrees_CallLockShared:
  "step (CallLockShared t) (s, pcs) = Some (s', pcs') \<Longrightarrow> slot_agrees (s, pcs) \<Longrightarrow> slot_agrees (s', pcs')"
  by (auto simp add: slot_agrees_def lock_shared_enter_def not_empty_if_entry split: if_splits option.splits)

lemma slot_agrees_SharedCheck:
  "step (SharedCheck t) (s, pcs) = Some (s', pcs') \<Longrightarrow> slot_agrees (s, pcs) \<Longrightarrow> slot_agrees (s', pcs')"
  by (auto simp add: slot_agrees_def lock_shared_try_def split: if_splits option.splits)

lemma slot_agrees_CallUnlock:
  "step (CallUnlock t) (s, pcs) = Some (s', pcs') \<Longrightarrow> slot_agrees (s, pcs) \<Longrightarrow> slot_agrees (s', pcs')"
  apply (auto simp add: slot_agrees_def unlock_def split: if_splits option.splits)
  subgoal for u by (cases "u = t") auto
  done

lemma slot_agrees_CallUnlockShared:
  "step (CallUnlockShared t) (s, pcs) = Some (s', pcs') \<Longrightarrow> slot_agrees (s, pcs) \<Longrightarrow> slot_agrees (s', pcs')"
  by (auto simp add: slot_agrees_def unlock_shared_def not_empty_if_entry split: if_splits option.splits)


lemma slot_agrees_step: "step a c = Some c' \<Longrightarrow> slot_agrees c \<Longrightarrow> slot_agrees c'"
  by (cases a; cases c; cases c')
    (simp_all only: slot_agrees_CallLock slot_agrees_LockExchange slot_agrees_LockCheckReaders
      slot_agrees_CallTryLock slot_agrees_CallLockShared slot_agrees_SharedCheck
      slot_agrees_CallUnlock slot_agrees_CallUnlockShared)

lemma slot_agrees_run: "run as c = Some c' \<Longrightarrow> slot_agrees c \<Longrightarrow> slot_agrees c'"
proof (induction as arbitrary: c)
  case Nil
  then show ?case by simp
next
  case (Cons a as)
  then show ?case by (auto split: option.splits dest: slot_agrees_step)
qed

lemma slot_agrees_initial: "slot_agrees initial"
  by (simp add: slot_agrees_def initial_def RecursiveSharedMutex_def)

lemma draining_in_slot:
  assumes "slot_agrees (s, pcs)" "pcs t = LockDraining"
  shows "writerThreadId s = Some t"
proof (cases "writerThreadId s")
  case None
  with assms show ?thesis by (simp add: slot_agrees_def)
next
  case (Some w)
  with assms(1) have "\<forall>x. x \<noteq> w \<longrightarrow> pcs x \<noteq> LockDraining"
    by (simp add: slot_agrees_def)
  with assms(2) have "t = w" by metis
  with Some show ?thesis by simp
qed

lemma acquired_in_slot:
  assumes "step a (s, pcs) = Some (s', pcs')" "acquires a (s, pcs) = Some t" "slot_agrees (s, pcs)"
  shows "writerThreadId s' = Some t \<and> pcs' t = Idle"
proof (cases a)
  case (CallLock u)
  with assms show ?thesis by (auto simp add: lock_enter_def split: if_splits)
next
  case (LockCheckReaders u)
  with assms have "u = t" "pcs t = LockDraining" "writerThreadId s' = writerThreadId s"
    "pcs' = pcs(t := Idle)"
    by (auto simp add: lock_drain_def split: if_splits)
  with draining_in_slot [OF assms(3), of t] show ?thesis by simp
next
  case (CallTryLock u sp)
  with assms show ?thesis
    by (auto simp add: try_lock_def compare_exchange_weak_def split: if_splits)
qed (use assms in simp_all)

lemma slot_left_by_unlock:
  assumes "step a (s, pcs) = Some (s', pcs')" "holds_exclusive (s, pcs) t"
    "\<not> holds_exclusive (s', pcs') t"
  shows "a = CallUnlock t \<and> writersOwnership s = 1"
proof (cases a)
  case (CallLock u)
  with assms show ?thesis
    by (auto simp add: holds_exclusive_def lock_enter_def split: if_splits)
next
  case (LockExchange u sp)
  with assms show ?thesis
    by (auto simp add: holds_exclusive_def compare_exchange_weak_def split: if_splits)
next
  case (LockCheckReaders u)
  with assms show ?thesis
    by (auto simp add: holds_exclusive_def lock_drain_def split: if_splits)
next
  case (CallTryLock u sp)
  with assms show ?thesis
    by (auto simp add: holds_exclusive_def try_lock_def compare_exchange_weak_def split: if_splits)
next
  case (CallLockShared u)
  with assms show ?thesis
    by (auto simp add: holds_exclusive_def lock_shared_enter_def split: if_splits option.splits)
next
  case (SharedCheck u)
  with assms show ?thesis
    by (auto simp add: holds_exclusive_def lock_shared_try_def split: if_splits)
next
  case (CallUnlock u)
  with assms show ?thesis
    by (auto simp add: holds_exclusive_def unlock_def split: if_splits)
next
  case (CallUnlockShared u)
  with assms show ?thesis
    by (auto simp add: holds_exclusive_def unlock_shared_def split: if_splits option.splits)
qed

lemma slot_claimed_from_empty:
  assumes "step a (s, pcs) = Some (s', pcs')" "writerThreadId s \<noteq> Some t"
    "writerThreadId s' = Some t"
  shows "writerThreadId s = None \<and> (a = LockExchange t False \<or> a = CallTryLock t False)"
proof (cases a)
  case (CallLock u)
  with assms show ?thesis by (auto simp add: lock_enter_def split: if_splits)
next
  case (LockExchange u sp)
  with assms show ?thesis by (auto simp add: compare_exchange_weak_def split: if_splits)
next
  case (LockCheckReaders u)
  with assms show ?thesis by (auto simp add: lock_drain_def split: if_splits)
next
  case (CallTryLock u sp)
  with assms show ?thesis
    by (auto simp add: try_lock_def compare_exchange_weak_def split: if_splits)
next
  case (CallLockShared u)
  with assms show ?thesis
    by (auto simp add: lock_shared_enter_def split: if_splits option.splits)
next
  case (SharedCheck u)
  with assms show ?thesis by (auto simp add: lock_shared_try_def split: if_splits)
next
  case (CallUnlock u)
  with assms show ?thesis by (auto simp add: unlock_def split: if_splits)
next
  case (CallUnlockShared u)
  with assms show ?thesis
    by (auto simp add: unlock_shared_def split: if_splits option.splits)
qed


lemma new_reader_only_by_admission:
  assumes "step a (s, pcs) = Some (s', pcs')"
    "Mapping.lookup (readersOwnership s) t = None"
    "Mapping.lookup (readersOwnership s') t \<noteq> None"
  shows "a = SharedCheck t \<and> waitingWriters s = 0 \<and> writerThreadId s = None
       \<and> Mapping.lookup (readersOwnership s') t = Some 1 \<and> pcs' t = Idle"
proof (cases a)
  case (CallLock u)
  with assms show ?thesis by (auto simp add: lock_enter_def split: if_splits)
next
  case (LockExchange u sp)
  with assms show ?thesis by (auto simp add: compare_exchange_weak_def split: if_splits)
next
  case (LockCheckReaders u)
  with assms show ?thesis by (auto simp add: lock_drain_def split: if_splits)
next
  case (CallTryLock u sp)
  with assms show ?thesis
    by (auto simp add: try_lock_def compare_exchange_weak_def split: if_splits)
next
  case (CallLockShared u)
  with assms show ?thesis
    by (auto simp add: lock_shared_enter_def lookup_update' split: if_splits option.splits)
next
  case (SharedCheck u)
  with assms show ?thesis
    by (auto simp add: lock_shared_try_def insert_entry_def lookup_update'
        split: if_splits option.splits)
next
  case (CallUnlock u)
  with assms show ?thesis by (auto simp add: unlock_def split: if_splits)
next
  case (CallUnlockShared u)
  with assms show ?thesis
    by (cases "u = t")
       (auto simp add: unlock_shared_def lookup_update' split: if_splits option.splits)
qed

text \<open>What a returned call of \<^verbatim>\<open>lock()\<close> has done, whatever the state it started in
  (one thread running): the loops end only through the exchange and an empty reader
  set.\<close>

lemma lock_wait_readers_Some:
  assumes "lock_wait_readers s = Some s'"
  shows "Mapping.is_empty (readersOwnership s)
       \<and> s' = s\<lparr>waitingWriters := waitingWriters s - 1\<rparr>"
proof (rule lock_wait_readers.raw_induct
    [where P = "\<lambda>s s'. Mapping.is_empty (readersOwnership s)
                  \<and> s' = s\<lparr>waitingWriters := waitingWriters s - 1\<rparr>"
       and s = s and y = s'])
  show "lock_wait_readers s = Some s'" by fact
next
  fix f :: "mutex_state \<Rightarrow> mutex_state option" and x y
  assume "\<And>x y. f x = Some y \<Longrightarrow>
            Mapping.is_empty (readersOwnership x)
            \<and> y = x\<lparr>waitingWriters := waitingWriters x - 1\<rparr>"
    and "(let (done, s') = lock_drain x in if done then Some s' else f s') = Some y"
  then show "Mapping.is_empty (readersOwnership x)
           \<and> y = x\<lparr>waitingWriters := waitingWriters x - 1\<rparr>"
    by (auto simp add: lock_drain_def split: if_splits)
qed

lemma lock_acquire_Some:
  assumes "lock_acquire t sp s = Some s'"
  shows "writerThreadId s = None \<and> writerThreadId s' = Some t
       \<and> Mapping.is_empty (readersOwnership s')"
proof (rule lock_acquire.raw_induct
    [where P = "\<lambda>t sp s s'. writerThreadId s = None \<and> writerThreadId s' = Some t
                  \<and> Mapping.is_empty (readersOwnership s')"
       and threadId = t and spurious = sp and s = s and y = s'])
  show "lock_acquire t sp s = Some s'" by fact
next
  fix f :: "tid \<Rightarrow> bool list \<Rightarrow> mutex_state \<Rightarrow> mutex_state option" and u bs x y
  assume ih: "\<And>u bs x y. f u bs x = Some y \<Longrightarrow>
            writerThreadId x = None \<and> writerThreadId y = Some u
            \<and> Mapping.is_empty (readersOwnership y)"
    and eq: "(let (claimed, s') =
                compare_exchange_weak (bs \<noteq> [] \<and> hd bs) None (Some u) x
              in if claimed then lock_wait_readers s' else f u (tl bs) s') = Some y"
  show "writerThreadId x = None \<and> writerThreadId y = Some u
      \<and> Mapping.is_empty (readersOwnership y)"
  proof (cases "writerThreadId x = None \<and> \<not> (bs \<noteq> [] \<and> hd bs)")
    case True
    with eq have "lock_wait_readers (x\<lparr>writerThreadId := Some u\<rparr>) = Some y"
      by (simp add: compare_exchange_weak_def)
    from lock_wait_readers_Some [OF this] True show ?thesis by simp
  next
    case False
    with eq have "f u (tl bs) x = Some y"
      by (auto simp add: compare_exchange_weak_def)
    from ih [OF this] show ?thesis .
  qed
qed

lemma lock_Returned:
  assumes "lock t sp s = Returned s1"
  shows "writerThreadId s1 = Some t
       \<and> (writerThreadId s \<noteq> Some t \<longrightarrow>
            writerThreadId s = None \<and> Mapping.is_empty (readersOwnership s1))"
proof (cases "writerThreadId s = Some t")
  case True
  with assms show ?thesis by (auto simp add: lock_def lock_enter_def)
next
  case False
  with assms obtain s0 where "lock_acquire t sp s0 = Some s1" "writerThreadId s0 = writerThreadId s"
    by (auto simp add: lock_def lock_enter_def split: if_splits option.splits)
  with lock_acquire_Some [of t sp s0 s1] show ?thesis by simp
qed

lemma try_lock_true:
  "fst (try_lock t b s) \<Longrightarrow>
   writerThreadId (snd (try_lock t b s)) = Some t
   \<and> (writerThreadId s \<noteq> Some t \<longrightarrow>
        writerThreadId s = None \<and> Mapping.is_empty (readersOwnership (snd (try_lock t b s))))"
  by (auto simp add: try_lock_def compare_exchange_weak_def split: if_splits)

text \<open>
  C1. In every configuration \<open>c\<close> that a schedule of atomic blocks of the five operations
  reaches from a freshly constructed lock with all threads outside it:
  \<^item> two threads that both own the lock exclusively are the same thread, and while a
    thread owns the lock exclusively (it is in the writer slot and its acquisition is
    complete) the reader set has no entry for any thread;
  \<^item> a step in which a call of \<^verbatim>\<open>lock()\<close> returns, or a call of \<^verbatim>\<open>try_lock()\<close> returns
    \<^verbatim>\<open>true\<close>, leaves the caller owning the lock exclusively, with an empty reader set;
  \<^item> a thread that owns the lock exclusively stops owning it only by a step of its own
    \<^verbatim>\<open>unlock()\<close>, taken at stored depth 1;
  \<^item> the writer slot comes to hold a thread that it did not hold only from the empty
    value, by that thread's successful exchange in \<^verbatim>\<open>lock()\<close> or \<^verbatim>\<open>try_lock()\<close>;
  \<^item> hence, while a thread owns the lock exclusively, no \<^verbatim>\<open>lock()\<close> or \<^verbatim>\<open>try_lock()\<close> of
    another thread returns with ownership, and no thread without a reader-set entry
    gets one.
  The same for a whole call run by one thread from any state: a returned \<^verbatim>\<open>lock()\<close>, and
  a \<^verbatim>\<open>try_lock()\<close> that answers \<^verbatim>\<open>true\<close>, leave the caller in the writer slot, and when
  the caller was not already there the slot was empty and the reader set is empty.
  Ownership is the state of the lock, as the claim has it: it ends at the owner's
  \<^verbatim>\<open>unlock()\<close> that finds the stored depth 1, and how many calls lead there is the subject
  of C7 and C8.
\<close>

theorem C1_mutual_exclusion:
  assumes "run sched initial = Some c"
  shows "(holds_exclusive c t \<and> holds_exclusive c u \<longrightarrow> t = u)
       \<and> (holds_exclusive c t \<longrightarrow> \<not> holds_shared c u)
       \<and> (step a c = Some c' \<and> acquires a c = Some t \<longrightarrow>
            holds_exclusive c' t \<and> Mapping.is_empty (readersOwnership (fst c')))
       \<and> (step a c = Some c' \<and> holds_exclusive c t \<and> \<not> holds_exclusive c' t \<longrightarrow>
            a = CallUnlock t \<and> writersOwnership (fst c) = 1)
       \<and> (step a c = Some c' \<and> writerThreadId (fst c) \<noteq> Some t
            \<and> writerThreadId (fst c') = Some t \<longrightarrow>
            writerThreadId (fst c) = None
            \<and> (a = LockExchange t False \<or> a = CallTryLock t False))
       \<and> (step a c = Some c' \<and> holds_exclusive c t \<and> acquires a c = Some u \<longrightarrow> u = t)
       \<and> (step a c = Some c' \<and> holds_exclusive c t
            \<and> Mapping.lookup (readersOwnership (fst c)) u = None \<longrightarrow>
            Mapping.lookup (readersOwnership (fst c')) u = None)
       \<and> (lock t spurious s = Returned s1 \<longrightarrow>
            writerThreadId s1 = Some t
            \<and> (writerThreadId s \<noteq> Some t \<longrightarrow>
                 writerThreadId s = None \<and> Mapping.is_empty (readersOwnership s1)))
       \<and> (fst (try_lock t b s) \<longrightarrow>
            writerThreadId (snd (try_lock t b s)) = Some t
            \<and> (writerThreadId s \<noteq> Some t \<longrightarrow>
                 writerThreadId s = None
                 \<and> Mapping.is_empty (readersOwnership (snd (try_lock t b s)))))"
proof -
  have inv: "slot_agrees c"
    using assms slot_agrees_initial by (rule slot_agrees_run)
  then have excl: "(holds_exclusive c t \<and> holds_exclusive c u \<longrightarrow> t = u)
       \<and> (holds_exclusive c t \<longrightarrow> \<not> holds_shared c u)"
    by (auto simp add: slot_agrees_def holds_exclusive_def holds_shared_def is_empty_lookup
        split: option.splits)
  have ret: "holds_exclusive c' v \<and> Mapping.is_empty (readersOwnership (fst c'))"
    if st: "step a c = Some c'" and acq: "acquires a c = Some v" for v
  proof -
    have inv': "slot_agrees c'" using st inv by (rule slot_agrees_step)
    have "writerThreadId (fst c') = Some v \<and> snd c' v = Idle"
      using acquired_in_slot [of a "fst c" "snd c" "fst c'" "snd c'" v] st acq inv by simp
    with inv' show ?thesis
      by (auto simp add: slot_agrees_def holds_exclusive_def)
  qed
  have rel: "a = CallUnlock t \<and> writersOwnership (fst c) = 1"
    if "step a c = Some c'" "holds_exclusive c t" "\<not> holds_exclusive c' t"
    using slot_left_by_unlock [of a "fst c" "snd c" "fst c'" "snd c'" t] that by simp
  have clm: "writerThreadId (fst c) = None
           \<and> (a = LockExchange t False \<or> a = CallTryLock t False)"
    if "step a c = Some c'" "writerThreadId (fst c) \<noteq> Some t"
      "writerThreadId (fst c') = Some t"
    using slot_claimed_from_empty [of a "fst c" "snd c" "fst c'" "snd c'" t] that by simp
  have other: "u = t"
    if st: "step a c = Some c'" and h: "holds_exclusive c t" and acq: "acquires a c = Some u"
  proof (rule ccontr)
    assume ne: "u \<noteq> t"
    from ret [OF st acq] have "writerThreadId (fst c') = Some u"
      by (simp add: holds_exclusive_def)
    with ne have "\<not> holds_exclusive c' t" by (simp add: holds_exclusive_def)
    with rel [OF st h] have "a = CallUnlock t" by simp
    with acq show False by (cases c) simp
  qed
  have rd: "Mapping.lookup (readersOwnership (fst c')) u = None"
    if st: "step a c = Some c'" and h: "holds_exclusive c t"
      and n: "Mapping.lookup (readersOwnership (fst c)) u = None"
  proof (rule ccontr)
    assume "Mapping.lookup (readersOwnership (fst c')) u \<noteq> None"
    with new_reader_only_by_admission [of a "fst c" "snd c" "fst c'" "snd c'" u] st n
    have "writerThreadId (fst c) = None" by simp
    with h show False by (simp add: holds_exclusive_def)
  qed
  from excl ret [of t] rel clm other rd lock_Returned [of t spurious s s1]
    try_lock_true [of t b s]
  show ?thesis by blast
qed

text \<open>
  A run for C1: thread 2 becomes a reader; thread 1 calls \<^verbatim>\<open>lock()\<close>, claims the empty
  slot and finds a reader; thread 2 releases; thread 1 finds the reader set empty and
  its \<^verbatim>\<open>lock()\<close> returns: it owns the lock, the reader set is empty, and thread 2, which
  has asked for the lock by \<^verbatim>\<open>try_lock()\<close> in vain, does not. Then thread 1 calls
  \<^verbatim>\<open>unlock()\<close> at depth 1 and owns the lock no more.
\<close>

theorem C1_mutual_exclusion_witness:
  "run [CallLockShared (Thread 2), SharedCheck (Thread 2), CallLock (Thread 1)] initial
     = Some (RecursiveSharedMutex
               \<lparr>waitingWriters := 1,
                  readersOwnership := Mapping.update (Thread 2) 1 Mapping.empty\<rparr>,
             (\<lambda>t. Idle)(Thread 1 := LockSpin))
   \<and> step (LockExchange (Thread 1) False)
        (RecursiveSharedMutex
           \<lparr>waitingWriters := 1,
              readersOwnership := Mapping.update (Thread 2) 1 Mapping.empty\<rparr>,
         (\<lambda>t. Idle)(Thread 1 := LockSpin))
     = Some (RecursiveSharedMutex
               \<lparr>waitingWriters := 1, writerThreadId := Some (Thread 1),
                  readersOwnership := Mapping.update (Thread 2) 1 Mapping.empty\<rparr>,
             (\<lambda>t. Idle)(Thread 1 := LockDraining))
   \<and> writerThreadId RecursiveSharedMutex = None
   \<and> run [CallLockShared (Thread 2), SharedCheck (Thread 2), CallLock (Thread 1),
          LockExchange (Thread 1) False, LockCheckReaders (Thread 1),
          CallUnlockShared (Thread 2)] initial
     = Some (RecursiveSharedMutex\<lparr>waitingWriters := 1, writerThreadId := Some (Thread 1)\<rparr>,
             (\<lambda>t. Idle)(Thread 1 := LockDraining))
   \<and> step (LockCheckReaders (Thread 1))
        (RecursiveSharedMutex\<lparr>waitingWriters := 1, writerThreadId := Some (Thread 1)\<rparr>,
         (\<lambda>t. Idle)(Thread 1 := LockDraining))
     = Some (RecursiveSharedMutex\<lparr>writerThreadId := Some (Thread 1)\<rparr>, \<lambda>t. Idle)
   \<and> acquires (LockCheckReaders (Thread 1))
        (RecursiveSharedMutex\<lparr>waitingWriters := 1, writerThreadId := Some (Thread 1)\<rparr>,
         (\<lambda>t. Idle)(Thread 1 := LockDraining))
     = Some (Thread 1)
   \<and> holds_exclusive (RecursiveSharedMutex\<lparr>writerThreadId := Some (Thread 1)\<rparr>, \<lambda>t. Idle)
        (Thread 1)
   \<and> Mapping.is_empty
        (readersOwnership
          (fst (RecursiveSharedMutex\<lparr>writerThreadId := Some (Thread 1)\<rparr>, \<lambda>t::tid. Idle)))
   \<and> run [CallLockShared (Thread 2), SharedCheck (Thread 2), CallLock (Thread 1),
          LockExchange (Thread 1) False, LockCheckReaders (Thread 1),
          CallUnlockShared (Thread 2), LockCheckReaders (Thread 1),
          CallTryLock (Thread 2) False] initial
     = Some (RecursiveSharedMutex\<lparr>writerThreadId := Some (Thread 1)\<rparr>, \<lambda>t. Idle)
   \<and> \<not> holds_exclusive (RecursiveSharedMutex\<lparr>writerThreadId := Some (Thread 1)\<rparr>, \<lambda>t. Idle)
        (Thread 2)
   \<and> \<not> holds_shared (RecursiveSharedMutex\<lparr>writerThreadId := Some (Thread 1)\<rparr>, \<lambda>t. Idle)
        (Thread 2)
   \<and> step (CallUnlock (Thread 1))
        (RecursiveSharedMutex\<lparr>writerThreadId := Some (Thread 1)\<rparr>, \<lambda>t. Idle)
     = Some initial
   \<and> \<not> holds_exclusive initial (Thread 1)
   \<and> writersOwnership
        (fst (RecursiveSharedMutex\<lparr>writerThreadId := Some (Thread 1)\<rparr>, \<lambda>t::tid. Idle)) = 1
   \<and> lock (Thread 1) [True] RecursiveSharedMutex
     = Returned (RecursiveSharedMutex\<lparr>writerThreadId := Some (Thread 1)\<rparr>)
   \<and> fst (try_lock (Thread 1) False RecursiveSharedMutex)
   \<and> writerThreadId (snd (try_lock (Thread 1) False RecursiveSharedMutex)) = Some (Thread 1)"
proof -
  let ?m = "Mapping.update (Thread 2) 1 Mapping.empty :: (tid, u32) mapping"
  let ?announced = "(RecursiveSharedMutex\<lparr>waitingWriters := 1, readersOwnership := ?m\<rparr>,
              (\<lambda>t::tid. Idle)(Thread 1 := LockSpin))"
  let ?claimed = "(RecursiveSharedMutex
                \<lparr>waitingWriters := 1, writerThreadId := Some (Thread 1),
                   readersOwnership := ?m\<rparr>,
              (\<lambda>t::tid. Idle)(Thread 1 := LockDraining))"
  let ?drained = "(RecursiveSharedMutex\<lparr>waitingWriters := 1, writerThreadId := Some (Thread 1)\<rparr>,
              (\<lambda>t::tid. Idle)(Thread 1 := LockDraining))"
  let ?owned = "(RecursiveSharedMutex\<lparr>writerThreadId := Some (Thread 1)\<rparr>, \<lambda>t::tid. Idle)"
  note defs = initial_def RecursiveSharedMutex_def lock_shared_enter_def
    lock_shared_try_def insert_entry_def lock_enter_def compare_exchange_weak_def
    lock_drain_def unlock_shared_def unlock_def try_lock_def delete_update fun_eq_iff
  have r0: "run [CallLockShared (Thread 2), SharedCheck (Thread 2), CallLock (Thread 1)]
              initial = Some ?announced"
    by (simp add: defs)
  have s0: "step (LockExchange (Thread 1) False) ?announced = Some ?claimed"
    by (simp add: defs)
  have n0: "writerThreadId (fst ?announced) \<noteq> Some (Thread 1)"
    and n1: "writerThreadId (fst ?claimed) = Some (Thread 1)"
    by (simp_all add: RecursiveSharedMutex_def)
  have r2: "run [CallLockShared (Thread 2), SharedCheck (Thread 2), CallLock (Thread 1),
                 LockExchange (Thread 1) False, LockCheckReaders (Thread 1),
                 CallUnlockShared (Thread 2)] initial = Some ?drained"
    by (simp add: defs)
  have s2: "step (LockCheckReaders (Thread 1)) ?drained = Some ?owned"
    by (simp add: defs)
  have a2: "acquires (LockCheckReaders (Thread 1)) ?drained = Some (Thread 1)"
    by (simp add: defs)
  have r: "run [CallLockShared (Thread 2), SharedCheck (Thread 2), CallLock (Thread 1),
                LockExchange (Thread 1) False, LockCheckReaders (Thread 1),
                CallUnlockShared (Thread 2), LockCheckReaders (Thread 1),
                CallTryLock (Thread 2) False] initial = Some ?owned"
    by (simp add: defs)
  have s3: "step (CallUnlock (Thread 1)) ?owned = Some initial"
    by (simp add: defs)
  have h3: "\<not> holds_exclusive initial (Thread 1)"
    by (simp add: holds_exclusive_def initial_def RecursiveSharedMutex_def)
  have l: "lock (Thread 1) [True] RecursiveSharedMutex
             = Returned (RecursiveSharedMutex\<lparr>writerThreadId := Some (Thread 1)\<rparr>)"
    by (simp add: lock_free RecursiveSharedMutex_def)
  have tl: "fst (try_lock (Thread 1) False RecursiveSharedMutex)"
    by (simp add: try_lock_def compare_exchange_weak_def RecursiveSharedMutex_def)
  from C1_mutual_exclusion
    [OF r0, where a = "LockExchange (Thread 1) False" and c' = ?claimed and t = "Thread 1"]
    s0 n0 n1
  have w0: "writerThreadId (fst ?announced) = None" by blast
  from C1_mutual_exclusion
    [OF r2, where a = "LockCheckReaders (Thread 1)" and c' = ?owned and t = "Thread 1"]
    s2 a2
  have w2: "holds_exclusive ?owned (Thread 1) \<and> Mapping.is_empty (readersOwnership (fst ?owned))"
    by blast
  from C1_mutual_exclusion
    [OF r, where a = "CallUnlock (Thread 1)" and c' = initial and t = "Thread 1"
       and u = "Thread 2" and s = RecursiveSharedMutex and b = False and spurious = "[True]"
       and ?s1.0 = "RecursiveSharedMutex\<lparr>writerThreadId := Some (Thread 1)\<rparr>"]
    w2 s3 h3 l tl
  have w3: "\<not> holds_shared ?owned (Thread 2)
          \<and> writersOwnership (fst ?owned) = 1
          \<and> writerThreadId (snd (try_lock (Thread 1) False RecursiveSharedMutex))
              = Some (Thread 1)"
    by blast
  have w4: "\<not> holds_exclusive ?owned (Thread 2)"
    using C1_mutual_exclusion
      [OF r, where t = "Thread 1" and u = "Thread 2" and a = "CallUnlock (Thread 1)"
         and c' = initial and s = RecursiveSharedMutex and b = False and spurious = "[]"
         and ?s1.0 = RecursiveSharedMutex]
      w2
    by auto
  have w0': "writerThreadId RecursiveSharedMutex = None"
    using w0 by simp
  from r0 s0 w0' r2 s2 a2 w2 r w4 w3 s3 h3 l tl show ?thesis by blast
qed

section \<open>Interleaved threads: the waiting-writer count\<close>

lemma pending_upd:
  "pending_writers (pcs(t := p)) =
     (if p = LockSpin \<or> p = LockDraining then insert t (pending_writers pcs)
      else pending_writers pcs - {t})"
  by (auto simp add: pending_writers_def)

lemma count_agrees_initial: "count_agrees initial"
  by (simp add: count_agrees_def initial_def RecursiveSharedMutex_def pending_writers_def)

lemma count_agrees_upd:
  "count_agrees (s\<lparr>writersOwnership := d\<rparr>, pcs) = count_agrees (s, pcs)"
  "count_agrees (s\<lparr>writerThreadId := w\<rparr>, pcs) = count_agrees (s, pcs)"
  "count_agrees (s\<lparr>readersOwnership := m\<rparr>, pcs) = count_agrees (s, pcs)"
  by (simp_all add: count_agrees_def)

lemma count_agrees_enter:
  "count_agrees (s, pcs) \<Longrightarrow> pcs t = Idle \<Longrightarrow>
   count_agrees (s\<lparr>waitingWriters := waitingWriters s + 1\<rparr>, pcs(t := LockSpin))"
  by (simp add: count_agrees_def pending_upd) (simp add: pending_writers_def)

lemma count_agrees_claim:
  assumes "count_agrees (s, pcs)" "pcs t = LockSpin"
  shows "count_agrees (s, pcs(t := LockDraining))"
proof -
  have "pending_writers (pcs(t := LockDraining)) = pending_writers pcs"
    using assms(2) by (auto simp add: pending_writers_def)
  with assms show ?thesis by (simp add: count_agrees_def)
qed

lemma count_agrees_leave:
  assumes "count_agrees (s, pcs)" "pcs t = LockDraining"
  shows "count_agrees (s\<lparr>waitingWriters := waitingWriters s - 1\<rparr>, pcs(t := Idle))"
proof -
  have t: "t \<in> pending_writers pcs" using assms(2) by (simp add: pending_writers_def)
  have f: "finite (pending_writers pcs)" using assms(1) by (simp add: count_agrees_def)
  from t f have "card (pending_writers pcs) \<noteq> 0" by auto
  then have "(of_nat (card (pending_writers pcs) - 1) :: u32) = of_nat (card (pending_writers pcs)) - 1"
    by (simp add: of_nat_diff)
  with assms(1) t f show ?thesis
    by (simp add: count_agrees_def pending_upd)
qed

lemma count_agrees_no_writer:
  assumes "count_agrees (s, pcs)" "pcs t = Idle \<or> pcs t = SharedSpin" "p = Idle \<or> p = SharedSpin"
  shows "count_agrees (s, pcs(t := p))"
proof -
  have "pending_writers (pcs(t := p)) = pending_writers pcs"
    using assms(2,3) by (auto simp add: pending_writers_def)
  with assms(1) show ?thesis by (simp add: count_agrees_def)
qed

lemma count_agrees_step:
  assumes "step a (s, pcs) = Some (s', pcs')" "count_agrees (s, pcs)"
  shows "count_agrees (s', pcs')"
proof (cases a)
  case (CallLock t)
  with assms show ?thesis
    by (auto simp add: lock_enter_def count_agrees_enter count_agrees_upd split: if_splits)
next
  case (LockExchange t sp)
  with assms show ?thesis
    by (auto simp add: compare_exchange_weak_def count_agrees_claim count_agrees_upd
        split: if_splits)
next
  case (LockCheckReaders t)
  with assms show ?thesis
    by (auto simp add: lock_drain_def count_agrees_leave split: if_splits)
next
  case (CallTryLock t sp)
  with assms show ?thesis
    by (auto simp add: try_lock_def compare_exchange_weak_def count_agrees_upd split: if_splits)
next
  case (CallLockShared t)
  with assms show ?thesis
    by (auto simp add: lock_shared_enter_def count_agrees_no_writer count_agrees_upd
        split: if_splits option.splits)
next
  case (SharedCheck t)
  with assms show ?thesis
    by (auto simp add: lock_shared_try_def count_agrees_no_writer count_agrees_upd
        split: if_splits)
next
  case (CallUnlock t)
  with assms show ?thesis
    by (auto simp add: unlock_def count_agrees_upd split: if_splits)
next
  case (CallUnlockShared t)
  with assms show ?thesis
    by (auto simp add: unlock_shared_def count_agrees_upd split: if_splits option.splits)
qed

lemma count_agrees_run: "run as c = Some c' \<Longrightarrow> count_agrees c \<Longrightarrow> count_agrees c'"
proof (induction as arbitrary: c)
  case Nil
  then show ?case by simp
next
  case (Cons a as)
  then show ?case by (cases c) (auto split: option.splits dest: count_agrees_step)
qed


lemma of_nat_u32_nonzero:
  assumes "0 < n" "n < 2 ^ 32"
  shows "(of_nat n :: u32) \<noteq> 0"
proof
  assume "(of_nat n :: u32) = 0"
  then have "unat (of_nat n :: u32) = 0" by simp
  moreover have "unat (of_nat n :: u32) = n"
    using assms(2) by (simp add: unat_of_nat take_bit_nat_eq_self)
  ultimately show False using assms(1) by simp
qed

lemma count_agrees_reachable:
  assumes "run sched initial = Some (s, pcs)"
  shows "finite (pending_writers pcs) \<and> waitingWriters s = of_nat (card (pending_writers pcs))"
proof -
  have "count_agrees (s, pcs)"
    using assms count_agrees_initial by (rule count_agrees_run)
  then show ?thesis by (simp add: count_agrees_def)
qed

lemma pending_blocks_admission:
  assumes "run sched initial = Some (s, pcs)" "w \<in> pending_writers pcs"
    "card (pending_writers pcs) < 2 ^ 32"
  shows "waitingWriters s \<noteq> 0"
proof -
  have inv: "count_agrees (s, pcs)"
    using assms(1) count_agrees_initial by (rule count_agrees_run)
  then have "finite (pending_writers pcs)" by (simp add: count_agrees_def)
  with assms(2) have "0 < card (pending_writers pcs)" by (auto simp add: card_gt_0_iff)
  then have "(of_nat (card (pending_writers pcs)) :: u32) \<noteq> 0"
    using assms(3) by (rule of_nat_u32_nonzero)
  with inv show ?thesis by (simp add: count_agrees_def)
qed

text \<open>
  C2. Whatever the configuration, a step gives a reader-set entry to a thread that had
  none only when it is that thread's admission round of \<^verbatim>\<open>lock_shared()\<close>, taken in a
  state whose waiting-writer count is 0 and whose writer slot is empty; the entry has
  depth 1 and the call returns. Consequently, in every reachable configuration in which
  some thread has incremented the waiting-writer count in \<^verbatim>\<open>lock()\<close> and not yet
  completed its acquisition, no step gives an entry to a thread that had none. The
  count is a \<^verbatim>\<open>uint32_t\<close>, documented in the header as the number of threads waiting
  for exclusive access: in every reachable configuration it is the number of such
  threads modulo \<open>2^32\<close>, and the second part is for the configurations with fewer than
  \<open>2^32\<close> of them, in which the stored count is that number.
\<close>

theorem C2_writer_preference:
  "(step a (s, pcs) = Some (s', pcs')
      \<and> Mapping.lookup (readersOwnership s) t = None
      \<and> Mapping.lookup (readersOwnership s') t \<noteq> None
     \<longrightarrow> a = SharedCheck t \<and> waitingWriters s = 0 \<and> writerThreadId s = None
         \<and> Mapping.lookup (readersOwnership s') t = Some 1 \<and> pcs' t = Idle)
   \<and> (run sched initial = Some (s, pcs) \<and> w \<in> pending_writers pcs
      \<and> card (pending_writers pcs) < 2 ^ 32
      \<and> step a (s, pcs) = Some (s', pcs')
      \<and> Mapping.lookup (readersOwnership s) t = None
     \<longrightarrow> Mapping.lookup (readersOwnership s') t = None)
   \<and> (run sched initial = Some (s, pcs)
     \<longrightarrow> finite (pending_writers pcs)
         \<and> waitingWriters s = of_nat (card (pending_writers pcs)))"
  using new_reader_only_by_admission [of a s pcs s' pcs' t]
    pending_blocks_admission [of sched s pcs w]
    count_agrees_reachable [of sched s pcs]
  by blast

text \<open>
  Two runs for C2. In the first, thread 2 asks for shared ownership of a free lock and
  is admitted. In the second, thread 2 is a reader, thread 1 has announced itself in
  \<^verbatim>\<open>lock()\<close>, and thread 3 asks for shared ownership: its round does not admit it.
\<close>

theorem C2_writer_preference_witness:
  "step (SharedCheck (Thread 2)) (RecursiveSharedMutex, (\<lambda>t. Idle)(Thread 2 := SharedSpin))
     = Some (RecursiveSharedMutex
               \<lparr>readersOwnership := Mapping.update (Thread 2) 1 Mapping.empty\<rparr>,
             \<lambda>t. Idle)
   \<and> waitingWriters RecursiveSharedMutex = 0 \<and> writerThreadId RecursiveSharedMutex = None
   \<and> run [CallLockShared (Thread 2), SharedCheck (Thread 2), CallLock (Thread 1),
          CallLockShared (Thread 3)] initial
     = Some (\<lparr>waitingWriters = 1, writerThreadId = None, writersOwnership = 1,
              readersOwnership = Mapping.update (Thread 2) 1 Mapping.empty\<rparr>,
             (\<lambda>t. Idle)(Thread 1 := LockSpin, Thread 3 := SharedSpin))
   \<and> step (SharedCheck (Thread 3))
        (\<lparr>waitingWriters = 1, writerThreadId = None, writersOwnership = 1,
          readersOwnership = Mapping.update (Thread 2) 1 Mapping.empty\<rparr>,
         (\<lambda>t. Idle)(Thread 1 := LockSpin, Thread 3 := SharedSpin))
     = Some (\<lparr>waitingWriters = 1, writerThreadId = None, writersOwnership = 1,
              readersOwnership = Mapping.update (Thread 2) 1 Mapping.empty\<rparr>,
             (\<lambda>t. Idle)(Thread 1 := LockSpin, Thread 3 := SharedSpin))
   \<and> Mapping.lookup (Mapping.update (Thread 2) 1 Mapping.empty :: (tid, u32) mapping) (Thread 3)
     = None"
proof -
  let ?p1 = "(\<lambda>t::tid. Idle)(Thread 2 := SharedSpin)"
  let ?s1 = "RecursiveSharedMutex
               \<lparr>readersOwnership := Mapping.update (Thread 2) 1 Mapping.empty\<rparr>"
  let ?s2 = "\<lparr>waitingWriters = 1, writerThreadId = None, writersOwnership = 1,
              readersOwnership = Mapping.update (Thread 2) 1 Mapping.empty\<rparr>"
  let ?p2 = "(\<lambda>t::tid. Idle)(Thread 1 := LockSpin, Thread 3 := SharedSpin)"
  have a1: "step (SharedCheck (Thread 2)) (RecursiveSharedMutex, ?p1) = Some (?s1, \<lambda>t. Idle)"
    by (simp add: RecursiveSharedMutex_def lock_shared_try_def insert_entry_def fun_eq_iff)
  have a2: "Mapping.lookup (readersOwnership RecursiveSharedMutex) (Thread 2) = None"
    by (simp add: RecursiveSharedMutex_def)
  have a3: "Mapping.lookup (readersOwnership ?s1) (Thread 2) \<noteq> None"
    by simp
  have b1: "run [CallLockShared (Thread 2), SharedCheck (Thread 2), CallLock (Thread 1),
                 CallLockShared (Thread 3)] initial = Some (?s2, ?p2)"
    by (simp add: initial_def RecursiveSharedMutex_def lock_shared_enter_def
        lock_shared_try_def insert_entry_def lock_enter_def fun_eq_iff)
  have "pending_writers ?p2 = {Thread 1}"
    by (auto simp add: pending_writers_def)
  then have b2: "Thread 1 \<in> pending_writers ?p2" and b3: "card (pending_writers ?p2) < 2 ^ 32"
    by simp_all
  have b4: "step (SharedCheck (Thread 3)) (?s2, ?p2) = Some (?s2, ?p2)"
    by (simp add: lock_shared_try_def)
  have b5: "Mapping.lookup (readersOwnership ?s2) (Thread 3) = None"
    by simp
  from C2_writer_preference
    [where a = "SharedCheck (Thread 2)" and s = RecursiveSharedMutex and pcs = ?p1
       and s' = ?s1 and pcs' = "\<lambda>t. Idle" and t = "Thread 2"]
    a1 a2 a3
  have c1: "waitingWriters RecursiveSharedMutex = 0 \<and> writerThreadId RecursiveSharedMutex = None"
    by blast
  from C2_writer_preference
    [where sched = "[CallLockShared (Thread 2), SharedCheck (Thread 2), CallLock (Thread 1),
                     CallLockShared (Thread 3)]"
       and s = ?s2 and pcs = ?p2 and w = "Thread 1" and a = "SharedCheck (Thread 3)"
       and s' = ?s2 and pcs' = ?p2 and t = "Thread 3"]
    b1 b2 b3 b4 b5
  have c2: "Mapping.lookup (readersOwnership ?s2) (Thread 3) = None"
    by blast
  from a1 c1 b1 b4 c2 show ?thesis by simp
qed

end
